theory Spec2Isabelle
  imports Main "HOL-Library.Word"
begin

section \<open>Data model (retry-policy.h)\<close>

text \<open>
  \<^verbatim>\<open>std::chrono::microseconds\<close> holds a signed 64-bit tick count and \<^verbatim>\<open>int\<close> is a signed
  32-bit integer. Both are machine words here: \<open>+\<close> and \<open>*\<close> wrap around, \<open>sint\<close> reads the
  two's-complement value, and the comparisons of the source are the signed ones
  (\<open><s\<close>, \<open>\<le>s\<close>).
\<close>

type_synonym microseconds = "64 word"

text \<open>
  A \<^verbatim>\<open>std::chrono::system_clock::time_point\<close>: a signed 64-bit count of the clock's ticks
  since the epoch. The clock of libstdc++ ticks in nanoseconds, so a delay added to a
  time point is first converted to nanoseconds, its count multiplied by 1000.
\<close>

type_synonym time_point = "64 word"

record RetryStatus =
  iteration_number :: "32 word"
  cumulative_delay :: microseconds
  previous_delay :: "microseconds option"

text \<open>The value-initialised status \<^verbatim>\<open>RetryStatus status{}\<close>.\<close>

definition fresh_status :: RetryStatus where
  "fresh_status = \<lparr>iteration_number = 0, cumulative_delay = 0, previous_delay = None\<rparr>"

text \<open>
  A library call made outside its precondition has undefined behaviour: the program gets
  no value back from it (it crashes, or worse). \<open>UndefinedBehaviour\<close> is that outcome. It
  ends the call in which it arises and every call around it.
\<close>

datatype error = UndefinedBehaviour

text \<open>
  A policy is a \<^verbatim>\<open>std::function\<close> from a status to an optional delay. The closure may read
  and change state outside the status (a random generator, the clock, anything captured
  by reference), so the model threads a world \<open>'w\<close> through every call: a policy takes the
  world it runs in and returns, unless it fails, its answer and the world it leaves
  behind. The answer \<open>None\<close> is \<^verbatim>\<open>std::nullopt\<close>.
\<close>

type_synonym 'w RetryPolicy = "RetryStatus \<Rightarrow> 'w \<Rightarrow> error + microseconds option \<times> 'w"

text \<open>\<^verbatim>\<open>std::max(a, b)\<close> is \<^verbatim>\<open>(a < b) ? b : a\<close> and \<^verbatim>\<open>std::min(a, b)\<close> is \<^verbatim>\<open>(b < a) ? b : a\<close>.\<close>

definition std_max :: "microseconds \<Rightarrow> microseconds \<Rightarrow> microseconds" where
  "std_max a b = (if a <s b then b else a)"

definition std_min :: "microseconds \<Rightarrow> microseconds \<Rightarrow> microseconds" where
  "std_min a b = (if b <s a then b else a)"

section \<open>RetryPolicy (retry-policy.h)\<close>

text \<open>\<^verbatim>\<open>RetryPolicy::apply\<close>.\<close>

definition apply_policy ::
  "'w RetryPolicy \<Rightarrow> RetryStatus \<Rightarrow> 'w \<Rightarrow> error + RetryStatus option \<times> 'w" where
  "apply_policy policy status w =
     (case policy status w of
        Inl e \<Rightarrow> Inl e
      | Inr (None, w') \<Rightarrow> Inr (None, w')
      | Inr (Some delay, w') \<Rightarrow>
          Inr (Some (status\<lparr>iteration_number := iteration_number status + 1,
                             cumulative_delay := cumulative_delay status + delay,
                             previous_delay := Some delay\<rparr>), w'))"

text \<open>
  \<^verbatim>\<open>RetryPolicy::applyAndDelay\<close>. The parameter \<open>sleep_for\<close> is the effect of
  \<^verbatim>\<open>std::this_thread::sleep_for\<close> on the world.
\<close>

definition applyAndDelay ::
  "(microseconds \<Rightarrow> 'w \<Rightarrow> 'w) \<Rightarrow> 'w RetryPolicy \<Rightarrow> RetryStatus \<Rightarrow> 'w \<Rightarrow>
   error + RetryStatus option \<times> 'w" where
  "applyAndDelay sleep_for policy status0 w =
     (case apply_policy policy status0 w of
        Inl e \<Rightarrow> Inl e
      | Inr (None, w') \<Rightarrow> Inr (None, w')
      | Inr (Some status, w') \<Rightarrow>
          (case previous_delay status of
             Some d \<Rightarrow> Inr (Some status, sleep_for d w')
           | None \<Rightarrow> Inr (Some status, w')))"

text \<open>\<^verbatim>\<open>operator+\<close>: both policies are evaluated, \<open>x\<close> first, at the same status.\<close>

definition combine :: "'w RetryPolicy \<Rightarrow> 'w RetryPolicy \<Rightarrow> 'w RetryPolicy" where
  "combine x y status w =
     (case x status w of
        Inl e \<Rightarrow> Inl e
      | Inr (xresult, w1) \<Rightarrow>
          (case y status w1 of
             Inl e \<Rightarrow> Inl e
           | Inr (yresult, w2) \<Rightarrow>
               (case xresult of
                  Some xd \<Rightarrow>
                    (case yresult of
                       Some yd \<Rightarrow> Inr (Some (std_max xd yd), w2)
                     | None \<Rightarrow> Inr (None, w2))
                | None \<Rightarrow> Inr (None, w2))))"

text \<open>
  \<^verbatim>\<open>RetryPolicy::retry\<close>: the body of \<^verbatim>\<open>while (true)\<close>, started by \<open>retry\<close> at the fresh
  status. The loop need not end; \<open>None\<close> is the run that never returns. The action and the
  predicate are caller-supplied closures and run in the world too.
\<close>

partial_function (option) retry_loop ::
  "(microseconds \<Rightarrow> 'w \<Rightarrow> 'w) \<Rightarrow> 'w RetryPolicy \<Rightarrow> (RetryStatus \<Rightarrow> 'r \<Rightarrow> 'w \<Rightarrow> bool \<times> 'w) \<Rightarrow>
   (RetryStatus \<Rightarrow> 'w \<Rightarrow> 'r \<times> 'w) \<Rightarrow> RetryStatus \<Rightarrow> 'w \<Rightarrow> (error + 'r \<times> 'w) option" where
  "retry_loop sleep_for policy shouldRetry action status w =
     (case action status w of (result, w1) \<Rightarrow>
      case shouldRetry status result w1 of (again, w2) \<Rightarrow>
        if \<not> again then Some (Inr (result, w2))
        else (case applyAndDelay sleep_for policy status w2 of
                Inl e \<Rightarrow> Some (Inl e)
              | Inr (None, w3) \<Rightarrow> Some (Inr (result, w3))
              | Inr (Some new_status, w3) \<Rightarrow>
                  retry_loop sleep_for policy shouldRetry action new_status w3))"

definition retry ::
  "(microseconds \<Rightarrow> 'w \<Rightarrow> 'w) \<Rightarrow> 'w RetryPolicy \<Rightarrow> (RetryStatus \<Rightarrow> 'r \<Rightarrow> 'w \<Rightarrow> bool \<times> 'w) \<Rightarrow>
   (RetryStatus \<Rightarrow> 'w \<Rightarrow> 'r \<times> 'w) \<Rightarrow> 'w \<Rightarrow> (error + 'r \<times> 'w) option" where
  "retry sleep_for policy shouldRetry action w =
     retry_loop sleep_for policy shouldRetry action fresh_status w"

text \<open>
  The loop of \<open>retry\<close> seen from outside: \<open>retry_passes k\<close> is the status and the world at
  the start of pass number \<open>k\<close> (counting from 0), provided each earlier pass ran the action,
  was told to retry and got a new status from the policy; \<open>None\<close> if the loop has ended
  before.
\<close>

fun retry_passes ::
  "nat \<Rightarrow> (microseconds \<Rightarrow> 'w \<Rightarrow> 'w) \<Rightarrow> 'w RetryPolicy \<Rightarrow> (RetryStatus \<Rightarrow> 'r \<Rightarrow> 'w \<Rightarrow> bool \<times> 'w) \<Rightarrow>
   (RetryStatus \<Rightarrow> 'w \<Rightarrow> 'r \<times> 'w) \<Rightarrow> RetryStatus \<Rightarrow> 'w \<Rightarrow> (RetryStatus \<times> 'w) option" where
  "retry_passes 0 sleep_for policy shouldRetry action status w = Some (status, w)"
| "retry_passes (Suc k) sleep_for policy shouldRetry action status w =
     (case action status w of (result, w1) \<Rightarrow>
      case shouldRetry status result w1 of (again, w2) \<Rightarrow>
        if \<not> again then None
        else (case applyAndDelay sleep_for policy status w2 of
                Inl e \<Rightarrow> None
              | Inr (None, w3) \<Rightarrow> None
              | Inr (Some new_status, w3) \<Rightarrow>
                  retry_passes k sleep_for policy shouldRetry action new_status w3))"

text \<open>
  \<^verbatim>\<open>RetryPolicy::simulate\<close>: \<open>simulate_loop\<close> is the \<^verbatim>\<open>for\<close> loop with \<open>n - i\<close> iterations
  left, \<open>status\<close> and \<open>xs\<close> its two locals. For \<open>n \<le> 0\<close> the body never runs.
\<close>

fun simulate_loop ::
  "'w RetryPolicy \<Rightarrow> nat \<Rightarrow> RetryStatus \<Rightarrow> RetryStatus list \<Rightarrow> 'w \<Rightarrow>
   error + RetryStatus list \<times> 'w" where
  "simulate_loop policy 0 status xs w = Inr (xs, w)"
| "simulate_loop policy (Suc k) status xs w =
     (case apply_policy policy status w of
        Inl e \<Rightarrow> Inl e
      | Inr (None, w') \<Rightarrow> Inr (xs, w')
      | Inr (Some new_status, w') \<Rightarrow>
          simulate_loop policy k new_status (xs @ [new_status]) w')"

definition simulate :: "'w RetryPolicy \<Rightarrow> 32 word \<Rightarrow> 'w \<Rightarrow> error + RetryStatus list \<times> 'w" where
  "simulate policy n w = simulate_loop policy (nat (sint n)) fresh_status [] w"

section \<open>Policy catalog (policies.h)\<close>

definition neverRetry :: "'w RetryPolicy" where
  "neverRetry status w = Inr (None, w)"

definition limitRetries :: "32 word \<Rightarrow> 'w RetryPolicy" where
  "limitRetries retryLimit status w =
     (if retryLimit \<le>s iteration_number status then Inr (None, w) else Inr (Some 0, w))"

definition limitCumulativeDelay :: "microseconds \<Rightarrow> 'w RetryPolicy \<Rightarrow> 'w RetryPolicy" where
  "limitCumulativeDelay cumulativeDelayLimit policy status w =
     (case policy status w of
        Inl e \<Rightarrow> Inl e
      | Inr (Some d, w') \<Rightarrow>
          if cumulativeDelayLimit \<le>s d + cumulative_delay status then Inr (None, w')
          else Inr (Some d, w')
      | Inr (None, w') \<Rightarrow> Inr (None, w'))"

text \<open>
  \<^verbatim>\<open>limitTimePoint\<close>. \<open>now\<close> reads the system clock of the world, in nanoseconds; the delay
  is converted to nanoseconds before it is added. The source ends with
  \<^verbatim>\<open>return policy(status)\<close>, a second call of the wrapped policy, taken on every path
  that does not stop at the limit.
\<close>

definition limitTimePoint ::
  "('w \<Rightarrow> time_point) \<Rightarrow> time_point \<Rightarrow> 'w RetryPolicy \<Rightarrow> 'w RetryPolicy" where
  "limitTimePoint now time_point_limit policy status w =
     (case policy status w of
        Inl e \<Rightarrow> Inl e
      | Inr (Some d, w') \<Rightarrow>
          if time_point_limit <s d * 1000 + now w' then Inr (None, w')
          else policy status w'
      | Inr (None, w') \<Rightarrow> policy status w')"

definition limitRetriesByDelay :: "microseconds \<Rightarrow> 'w RetryPolicy \<Rightarrow> 'w RetryPolicy" where
  "limitRetriesByDelay delayLimit policy status w =
     (case policy status w of
        Inl e \<Rightarrow> Inl e
      | Inr (Some d, w') \<Rightarrow> if delayLimit \<le>s d then Inr (None, w') else Inr (Some d, w')
      | Inr (None, w') \<Rightarrow> Inr (None, w'))"

definition constantDelay :: "microseconds \<Rightarrow> 'w RetryPolicy" where
  "constantDelay delay status w = Inr (Some delay, w)"

text \<open>
  The jitter policies build a \<^verbatim>\<open>std::uniform_int_distribution<int> distribution(a, b)\<close> and
  draw from it on a thread-local generator. The distribution requires \<open>a \<le> b\<close>; built with
  \<open>b < a\<close> its behaviour is undefined. On a range that is not empty the draw is the
  parameter \<open>uniform_int\<close>: given the bounds and the world (which holds the generator) it
  returns the number drawn and the world with the generator advanced.
\<close>

type_synonym 'w uniform_int_distribution = "32 word \<Rightarrow> 32 word \<Rightarrow> 'w \<Rightarrow> 32 word \<times> 'w"

definition distribution ::
  "'w uniform_int_distribution \<Rightarrow> 32 word \<Rightarrow> 32 word \<Rightarrow> 'w \<Rightarrow> error + 32 word \<times> 'w" where
  "distribution uniform_int a b w =
     (if b <s a then Inl UndefinedBehaviour else Inr (uniform_int a b w))"

text \<open>
  The upper bound is a \<^verbatim>\<open>long\<close> count narrowed to \<^verbatim>\<open>int\<close> (\<open>ucast\<close> keeps the low 32 bits) and
  the \<^verbatim>\<open>int\<close> drawn is widened again (\<open>scast\<close>).
\<close>

definition fullJitter :: "'w uniform_int_distribution \<Rightarrow> microseconds \<Rightarrow> 'w RetryPolicy" where
  "fullJitter uniform_int max_delay status w =
     (case distribution uniform_int 0 (ucast max_delay) w of
        Inl e \<Rightarrow> Inl e
      | Inr (r, w') \<Rightarrow> Inr (Some (scast r), w'))"

text \<open>
  \<^verbatim>\<open>static_cast<int>(std::pow(2, i))\<close> for an \<^verbatim>\<open>int\<close> \<open>i\<close>. The power is computed in
  \<^verbatim>\<open>double\<close>, where \<open>2 ^ i\<close> is exact; for negative \<open>i\<close> it is below one and the cast
  truncates it to 0. From \<open>i = 31\<close> on the value does not fit an \<^verbatim>\<open>int\<close>: the conversion
  instruction of x86-64 then yields \<open>0x80000000\<close>, the value taken here.
\<close>

definition pow2_int :: "32 word \<Rightarrow> 32 word" where
  "pow2_int i = (if i <s 0 then 0 else if i \<le>s 30 then 2 ^ unat i else 0x80000000)"

definition exponentialBackoff :: "microseconds \<Rightarrow> 'w RetryPolicy" where
  "exponentialBackoff base status w =
     Inr (Some (base * scast (pow2_int (iteration_number status))), w)"

definition decorrelatedJitterBackoff ::
  "'w uniform_int_distribution \<Rightarrow> microseconds \<Rightarrow> 'w RetryPolicy" where
  "decorrelatedJitterBackoff uniform_int base status w =
     (case previous_delay status of
        Some prev \<Rightarrow>
          (case distribution uniform_int 0 (ucast (prev * 3)) w of
             Inl e \<Rightarrow> Inl e
           | Inr (r, w') \<Rightarrow> Inr (Some (scast r), w'))
      | None \<Rightarrow> Inr (None, w))"

definition capDelay :: "microseconds \<Rightarrow> 'w RetryPolicy \<Rightarrow> 'w RetryPolicy" where
  "capDelay maxDelay policy status w =
     (case policy status w of
        Inl e \<Rightarrow> Inl e
      | Inr (Some d, w') \<Rightarrow> Inr (Some (std_min maxDelay d), w')
      | Inr (None, w') \<Rightarrow> Inr (None, w'))"

section \<open>PreemptibleRetry (preemptible.h)\<close>

text \<open>\<^verbatim>\<open>PreemptibleRetryStatus\<close> derives from \<^verbatim>\<open>RetryStatus\<close> and adds one field.\<close>

record PreemptibleRetryStatus = RetryStatus +
  condition_signalled :: bool

text \<open>
  The two constructors: the default one, which \<^verbatim>\<open>status0 = {}\<close> calls, and
  \<^verbatim>\<open>PreemptibleRetryStatus(retry_status, signalled)\<close>.
\<close>

definition fresh_preemptible_status :: PreemptibleRetryStatus where
  "fresh_preemptible_status =
     \<lparr>iteration_number = 0, cumulative_delay = 0, previous_delay = None,
      condition_signalled = False\<rparr>"

definition PreemptibleRetryStatus_of :: "RetryStatus \<Rightarrow> bool \<Rightarrow> PreemptibleRetryStatus" where
  "PreemptibleRetryStatus_of retry_status signalled =
     \<lparr>iteration_number = iteration_number retry_status,
      cumulative_delay = cumulative_delay retry_status,
      previous_delay = previous_delay retry_status,
      condition_signalled = signalled\<rparr>"

text \<open>The class \<^verbatim>\<open>PreemptibleRetry\<close>, its two members named without their trailing underscore.\<close>

record 'w PreemptibleRetry =
  policy_before :: "'w RetryPolicy"
  policy_after :: "'w RetryPolicy"

text \<open>
  \<^verbatim>\<open>PreemptibleRetry::applyAndPreemptibleDelay\<close>. \<open>cond\<close> is the caller's predicate, run in
  the world; \<open>wait_for d cond\<close> is \<^verbatim>\<open>cv.wait_for(lock, d, cond)\<close>, which returns whether the
  predicate held when the wait ended (other threads act on the world meanwhile, so it is
  a parameter). Passing a \<^verbatim>\<open>PreemptibleRetryStatus\<close> to \<^verbatim>\<open>apply\<close> or \<^verbatim>\<open>applyAndDelay\<close> slices
  it to its \<^verbatim>\<open>RetryStatus\<close> part (\<open>RetryStatus.truncate\<close>). Taking and releasing the mutex
  changes nothing that is modelled.
\<close>

definition applyAndPreemptibleDelay ::
  "(microseconds \<Rightarrow> 'w \<Rightarrow> 'w) \<Rightarrow> (microseconds \<Rightarrow> ('w \<Rightarrow> bool \<times> 'w) \<Rightarrow> 'w \<Rightarrow> bool \<times> 'w) \<Rightarrow>
   'w PreemptibleRetry \<Rightarrow> ('w \<Rightarrow> bool \<times> 'w) \<Rightarrow> PreemptibleRetryStatus \<Rightarrow> 'w \<Rightarrow>
   error + PreemptibleRetryStatus option \<times> 'w" where
  "applyAndPreemptibleDelay sleep_for wait_for this cond status0 w =
     (case cond w of
        (True, w1) \<Rightarrow>
          (case applyAndDelay sleep_for (policy_after this)
                  (RetryStatus.truncate
                     (if condition_signalled status0 then fresh_preemptible_status else status0)) w1 of
             Inl e \<Rightarrow> Inl e
           | Inr (Some status, w2) \<Rightarrow> Inr (Some (PreemptibleRetryStatus_of status False), w2)
           | Inr (None, w2) \<Rightarrow> Inr (None, w2))
      | (False, w1) \<Rightarrow>
          (case apply_policy (policy_before this) (RetryStatus.truncate status0) w1 of
             Inl e \<Rightarrow> Inl e
           | Inr (None, w2) \<Rightarrow> Inr (None, w2)
           | Inr (Some status, w2) \<Rightarrow>
               (case previous_delay status of
                  Some d \<Rightarrow>
                    (case wait_for d cond w2 of
                       (True, w3) \<Rightarrow> Inr (Some (PreemptibleRetryStatus_of status True), w3)
                     | (False, w3) \<Rightarrow> Inr (Some (PreemptibleRetryStatus_of status False), w3))
                | None \<Rightarrow> Inr (Some (PreemptibleRetryStatus_of status False), w2))))"

text \<open>
  \<^verbatim>\<open>PreemptibleRetry::simulate\<close>. Both \<^verbatim>\<open>for\<close> loops have the same body up to the policy and
  the flag pushed, so \<open>simulate_phase\<close> is either of them; its Boolean result tells
  whether the loop ran to its end (\<open>True\<close>) or left the function by \<^verbatim>\<open>return xs\<close>.
\<close>

fun simulate_phase ::
  "'w RetryPolicy \<Rightarrow> bool \<Rightarrow> nat \<Rightarrow> RetryStatus \<Rightarrow> PreemptibleRetryStatus list \<Rightarrow> 'w \<Rightarrow>
   error + (bool \<times> PreemptibleRetryStatus list) \<times> 'w" where
  "simulate_phase policy signalled 0 status xs w = Inr ((True, xs), w)"
| "simulate_phase policy signalled (Suc k) status xs w =
     (case apply_policy policy status w of
        Inl e \<Rightarrow> Inl e
      | Inr (None, w') \<Rightarrow> Inr ((False, xs), w')
      | Inr (Some new_status, w') \<Rightarrow>
          simulate_phase policy signalled k new_status
            (xs @ [PreemptibleRetryStatus_of new_status signalled]) w')"

definition preemptible_simulate ::
  "'w PreemptibleRetry \<Rightarrow> 32 word \<Rightarrow> 32 word \<Rightarrow> 'w \<Rightarrow>
   error + PreemptibleRetryStatus list \<times> 'w" where
  "preemptible_simulate this n_before n_after w =
     (case simulate_phase (policy_before this) False (nat (sint n_before)) fresh_status [] w of
        Inl e \<Rightarrow> Inl e
      | Inr ((False, xs), w1) \<Rightarrow> Inr (xs, w1)
      | Inr ((True, xs), w1) \<Rightarrow>
          (case simulate_phase (policy_after this) True (nat (sint n_after)) fresh_status xs w1 of
             Inl e \<Rightarrow> Inl e
           | Inr ((finished, xs'), w2) \<Rightarrow> Inr (xs', w2)))"

section \<open>Test doubles\<close>

text \<open>
  A policy closure that counts its own evaluations in a counter it captures by reference:
  the world gains the counter as a first component.
\<close>

definition counted :: "'w RetryPolicy \<Rightarrow> (nat \<times> 'w) RetryPolicy" where
  "counted policy status cw =
     (case cw of (calls, w) \<Rightarrow>
        (case policy status w of
           Inl e \<Rightarrow> Inl e
         | Inr (delay, w') \<Rightarrow> Inr (delay, (Suc calls, w'))))"

text \<open>
  A uniform integer distribution over a scripted generator: the world is the list of the
  raw 32-bit numbers the generator will produce, and a draw from \<open>[a, b]\<close> maps the next
  one into the range by the remainder modulo the range's size \<open>(unsigned)(b - a) + 1\<close>.
\<close>

definition mod_uniform_int :: "(32 word list) uniform_int_distribution" where
  "mod_uniform_int a b rs =
     (case rs of
        [] \<Rightarrow> (a, [])
      | r # rest \<Rightarrow> (a + word_of_nat (unat r mod (unat (b - a) + 1)), rest))"

section \<open>Machine arithmetic\<close>

lemma sint_add_64:
  fixes a b :: "64 word"
  assumes "- (2 ^ 63) \<le> sint a + sint b" and "sint a + sint b < 2 ^ 63"
  shows "sint (a + b) = sint a + sint b"
  using assms by (simp add: sint_word_add signed_take_bit_int_eq_self)

lemma sint_succ_32:
  fixes i :: "32 word"
  assumes "sint i < 2 ^ 31 - 1"
  shows "sint (i + 1) = sint i + 1"
proof -
  have "- (2 ^ 31) \<le> sint i" using sint_ge [of i] by simp
  with assms show ?thesis
    by (simp add: sint_word_add signed_take_bit_int_eq_self)
qed

lemma sint_of_nat_32: "k < 2 ^ 31 \<Longrightarrow> sint (word_of_nat k :: 32 word) = int k"
  by (simp add: signed_of_nat signed_take_bit_int_eq_self)

lemma sint_pow2_32: "i \<le> 30 \<Longrightarrow> sint (2 ^ i :: 32 word) = 2 ^ i"
proof -
  assume i: "i \<le> 30"
  have "(2 ^ i :: int) \<le> 2 ^ 30" using i by (intro power_increasing) auto
  then have lt: "(2 ^ i :: int) < 2 ^ 31" by simp
  have ge: "- (2 ^ 31) \<le> (2 ^ i :: int)"
    by (rule order_trans [of _ 0]) simp_all
  have "(2 ^ i :: 32 word) = word_of_int (2 ^ i)" by simp
  then have "sint (2 ^ i :: 32 word) = signed_take_bit 31 (2 ^ i :: int)"
    by (simp only: sint_sbintrunc') simp
  also have "\<dots> = 2 ^ i" by (rule signed_take_bit_int_eq_self [OF ge lt])
  finally show ?thesis .
qed

lemma scast_pow2: "i \<le> 30 \<Longrightarrow> (scast (2 ^ i :: 32 word) :: 64 word) = 2 ^ i"
  by (simp add: scast_eq sint_pow2_32)

lemma sint_mult_pow2_64:
  fixes base :: "64 word"
  assumes "- (2 ^ 63) \<le> sint base * 2 ^ i" and "sint base * 2 ^ i < 2 ^ 63"
  shows "sint (base * 2 ^ i) = sint base * 2 ^ i"
proof -
  have "base * 2 ^ i = word_of_int (sint base * 2 ^ i)" by simp
  then have "sint (base * 2 ^ i) = sint (word_of_int (sint base * 2 ^ i) :: 64 word)"
    by (simp only:)
  also have "\<dots> = signed_take_bit 63 (sint base * 2 ^ i)"
    by (simp only: sint_sbintrunc') simp
  also have "\<dots> = sint base * 2 ^ i" using assms by (intro signed_take_bit_int_eq_self) auto
  finally show ?thesis .
qed

section \<open>apply\<close>

text \<open>
  C2. If the policy yields a delay \<open>d\<close> at the status, \<open>apply\<close> returns the status with
  \<open>iteration_number\<close> one more, \<open>cumulative_delay\<close> increased by \<open>d\<close> and \<open>previous_delay = d\<close>;
  if the policy yields stop, \<open>apply\<close> returns stop. The sums are those of the fields'
  types; they are the exact integer sums whenever these fit the type (third part).
\<close>

theorem apply_policy_step:
  "(policy status w = Inr (Some d, w') \<longrightarrow>
      apply_policy policy status w =
        Inr (Some \<lparr>iteration_number = iteration_number status + 1,
                    cumulative_delay = cumulative_delay status + d,
                    previous_delay = Some d\<rparr>, w'))
   \<and> (policy status w = Inr (None, w') \<longrightarrow> apply_policy policy status w = Inr (None, w'))
   \<and> (policy status w = Inr (Some d, w') \<and> sint (iteration_number status) < 2 ^ 31 - 1
        \<and> - (2 ^ 63) \<le> sint (cumulative_delay status) + sint d
        \<and> sint (cumulative_delay status) + sint d < 2 ^ 63 \<longrightarrow>
      (\<exists>status'. apply_policy policy status w = Inr (Some status', w')
         \<and> sint (iteration_number status') = sint (iteration_number status) + 1
         \<and> sint (cumulative_delay status') = sint (cumulative_delay status) + sint d
         \<and> previous_delay status' = Some d))"
  by (cases status) (simp add: apply_policy_def sint_add_64 sint_succ_32)

theorem apply_policy_step_witness:
  "constantDelay 100 fresh_status () = Inr (Some 100, ())
   \<and> sint (iteration_number fresh_status) < 2 ^ 31 - 1
   \<and> - (2 ^ 63) \<le> sint (cumulative_delay fresh_status) + sint (100 :: microseconds)
   \<and> sint (cumulative_delay fresh_status) + sint (100 :: microseconds) < 2 ^ 63
   \<and> apply_policy (constantDelay 100) fresh_status () =
       Inr (Some \<lparr>iteration_number = 1, cumulative_delay = 100, previous_delay = Some 100\<rparr>, ())
   \<and> neverRetry fresh_status () = Inr (None, ())
   \<and> apply_policy neverRetry fresh_status () = Inr (None, ())"
  using apply_policy_step [of "constantDelay 100" fresh_status "()" 100 "()"]
    apply_policy_step [of neverRetry fresh_status "()" 0 "()"]
  by (simp add: constantDelay_def neverRetry_def fresh_status_def)

section \<open>applyAndDelay\<close>

text \<open>
  C10. \<open>applyAndDelay\<close> returns exactly what \<open>apply\<close> returns on the same status and world,
  stop or the same status (or the same failure); the sleep only acts on the world, after
  the status has been computed.
\<close>

theorem applyAndDelay_returns_apply:
  "map_sum id fst (applyAndDelay sleep_for policy status w)
     = map_sum id fst (apply_policy policy status w)
   \<and> map_sum id snd (applyAndDelay sleep_for policy status w) =
       (case apply_policy policy status w of
          Inl e \<Rightarrow> Inl e
        | Inr (Some status', w') \<Rightarrow> Inr (sleep_for (the (previous_delay status')) w')
        | Inr (None, w') \<Rightarrow> Inr w')"
  by (auto simp: applyAndDelay_def apply_policy_def split: sum.splits prod.splits option.splits)

section \<open>combine\<close>

lemma std_max_sint: "sint (std_max a b) = max (sint a) (sint b)"
  by (auto simp: std_max_def word_sless_alt max_def)

lemma std_min_sint: "sint (std_min a b) = min (sint a) (sint b)"
  by (auto simp: std_min_def word_sless_alt min_def)

text \<open>
  C3. The combined policy evaluates \<open>x\<close> and then \<open>y\<close> at the same status (also when \<open>x\<close>
  stops); it stops if either stops and otherwise returns the larger of the two delays.
\<close>

theorem combine_max_or_stop:
  assumes "x status w = Inr (xresult, w1)" and "y status w1 = Inr (yresult, w2)"
  shows "(xresult = None \<or> yresult = None \<longrightarrow> combine x y status w = Inr (None, w2))
       \<and> (\<forall>dx dy. xresult = Some dx \<and> yresult = Some dy \<longrightarrow>
            combine x y status w = Inr (Some (std_max dx dy), w2)
            \<and> sint (std_max dx dy) = max (sint dx) (sint dy))"
  using assms by (auto simp: combine_def std_max_sint split: option.splits)

theorem combine_max_or_stop_witness:
  "constantDelay 100 fresh_status () = Inr (Some 100, ())
   \<and> limitRetries 0 fresh_status () = Inr (None, ())
   \<and> constantDelay 250 fresh_status () = Inr (Some 250, ())
   \<and> combine (constantDelay 100) (limitRetries 0) fresh_status () = Inr (None, ())
   \<and> combine (constantDelay 100) (constantDelay 250) fresh_status () = Inr (Some 250, ())"
proof -
  have c100: "constantDelay 100 fresh_status () = Inr (Some 100, ())"
    by (simp add: constantDelay_def)
  have c250: "constantDelay 250 fresh_status () = Inr (Some 250, ())"
    by (simp add: constantDelay_def)
  have l0: "limitRetries 0 fresh_status () = Inr (None, ())"
    by (simp add: limitRetries_def fresh_status_def)
  show ?thesis
    using combine_max_or_stop
        [of "constantDelay 100" fresh_status "()" "Some 100" "()" "limitRetries 0" None "()"]
      combine_max_or_stop
        [of "constantDelay 100" fresh_status "()" "Some 100" "()" "constantDelay 250" "Some 250" "()"]
      c100 c250 l0
    by (simp add: std_max_def)
qed

section \<open>limitCumulativeDelay\<close>

text \<open>
  C6. \<open>limitCumulativeDelay limit P\<close> evaluates \<open>P\<close> once; it stops iff \<open>P\<close> stops or
  \<open>P\<close>'s delay plus the status's \<open>cumulative_delay\<close> is at least \<open>limit\<close>, and otherwise
  returns \<open>P\<close>'s delay. The sum is that of \<^verbatim>\<open>microseconds\<close>, the exact integer sum whenever
  it fits (fourth part). With limit 250 over a constant delay of 100, \<open>simulate 10\<close> yields
  exactly two statuses, with cumulative delay 100 and 200.
\<close>

theorem limitCumulativeDelay_stop_iff:
  "((\<exists>w1. limitCumulativeDelay limit P status w = Inr (None, w1)) \<longleftrightarrow>
      (\<exists>w1. P status w = Inr (None, w1))
      \<or> (\<exists>d w1. P status w = Inr (Some d, w1) \<and> limit \<le>s d + cumulative_delay status))
   \<and> (\<forall>d w1. limitCumulativeDelay limit P status w = Inr (Some d, w1) \<longrightarrow>
        limitCumulativeDelay limit P status w = P status w)
   \<and> map_sum id snd (limitCumulativeDelay limit P status w) = map_sum id snd (P status w)
   \<and> (\<forall>d w1. P status w = Inr (Some d, w1)
          \<and> - (2 ^ 63) \<le> sint d + sint (cumulative_delay status)
          \<and> sint d + sint (cumulative_delay status) < 2 ^ 63 \<longrightarrow>
        ((\<exists>w2. limitCumulativeDelay limit P status w = Inr (None, w2)) \<longleftrightarrow>
           sint limit \<le> sint d + sint (cumulative_delay status)))
   \<and> simulate (limitCumulativeDelay 250 (constantDelay 100)) 10 w' =
       Inr ([\<lparr>iteration_number = 1, cumulative_delay = 100, previous_delay = Some 100\<rparr>,
             \<lparr>iteration_number = 2, cumulative_delay = 200, previous_delay = Some 100\<rparr>], w')"
proof -
  have a: "(\<exists>w1. limitCumulativeDelay limit P status w = Inr (None, w1)) \<longleftrightarrow>
      (\<exists>w1. P status w = Inr (None, w1))
      \<or> (\<exists>d w1. P status w = Inr (Some d, w1) \<and> limit \<le>s d + cumulative_delay status)"
    by (auto simp: limitCumulativeDelay_def split: sum.splits prod.splits option.splits)
  have b: "\<forall>d w1. limitCumulativeDelay limit P status w = Inr (Some d, w1) \<longrightarrow>
        limitCumulativeDelay limit P status w = P status w"
    by (auto simp: limitCumulativeDelay_def split: sum.splits prod.splits option.splits if_splits)
  have c: "map_sum id snd (limitCumulativeDelay limit P status w) = map_sum id snd (P status w)"
    by (auto simp: limitCumulativeDelay_def split: sum.splits prod.splits option.splits)
  have d: "\<forall>d w1. P status w = Inr (Some d, w1)
          \<and> - (2 ^ 63) \<le> sint d + sint (cumulative_delay status)
          \<and> sint d + sint (cumulative_delay status) < 2 ^ 63 \<longrightarrow>
        ((\<exists>w2. limitCumulativeDelay limit P status w = Inr (None, w2)) \<longleftrightarrow>
           sint limit \<le> sint d + sint (cumulative_delay status))"
    by (auto simp: limitCumulativeDelay_def word_sle_eq sint_add_64)
  have e: "simulate (limitCumulativeDelay 250 (constantDelay 100)) 10 w' =
       Inr ([\<lparr>iteration_number = 1, cumulative_delay = 100, previous_delay = Some 100\<rparr>,
             \<lparr>iteration_number = 2, cumulative_delay = 200, previous_delay = Some 100\<rparr>], w')"
    by (simp add: simulate_def eval_nat_numeral apply_policy_def limitCumulativeDelay_def
        constantDelay_def fresh_status_def)
  from a b c d e show ?thesis by blast
qed

theorem limitCumulativeDelay_stop_iff_witness:
  "constantDelay 100 \<lparr>iteration_number = 2, cumulative_delay = 200, previous_delay = Some 100\<rparr> ()
     = Inr (Some 100, ())
   \<and> - (2 ^ 63) \<le> sint (100 :: microseconds) + sint (200 :: microseconds)
   \<and> sint (100 :: microseconds) + sint (200 :: microseconds) < 2 ^ 63
   \<and> sint (250 :: microseconds) \<le> sint (100 :: microseconds) + sint (200 :: microseconds)
   \<and> limitCumulativeDelay 250 (constantDelay 100)
        \<lparr>iteration_number = 2, cumulative_delay = 200, previous_delay = Some 100\<rparr> ()
       = Inr (None, ())
   \<and> limitCumulativeDelay 250 (constantDelay 100) fresh_status () = Inr (Some 100, ())
   \<and> limitCumulativeDelay 250 (constantDelay 100) fresh_status () =
       constantDelay 100 fresh_status ()"
  using limitCumulativeDelay_stop_iff [of 250 "constantDelay 100"
      "\<lparr>iteration_number = 2, cumulative_delay = 200, previous_delay = Some 100\<rparr>" "()" "()"]
    limitCumulativeDelay_stop_iff [of 250 "constantDelay 100" fresh_status "()" "()"]
  by (simp add: constantDelay_def limitCumulativeDelay_def fresh_status_def)

section \<open>The wrapping combinators evaluate the wrapped policy\<close>

text \<open>
  Three of the four wrappers call the wrapped policy once and compute their result from
  that call: the world they leave is the one the single call left, and a counting policy
  counts one call.
\<close>

lemma capDelay_single_evaluation:
  "capDelay maxDelay policy status w =
     (case policy status w of
        Inl e \<Rightarrow> Inl e
      | Inr (delay, w') \<Rightarrow> Inr (map_option (std_min maxDelay) delay, w'))"
  by (simp add: capDelay_def split: sum.splits prod.splits option.splits)

lemma limitRetriesByDelay_single_evaluation:
  "limitRetriesByDelay delayLimit policy status w =
     (case policy status w of
        Inl e \<Rightarrow> Inl e
      | Inr (delay, w') \<Rightarrow>
          Inr (case delay of Some d \<Rightarrow> if delayLimit \<le>s d then None else Some d | None \<Rightarrow> None,
               w'))"
  by (simp add: limitRetriesByDelay_def split: sum.splits prod.splits option.splits)

lemma limitCumulativeDelay_single_evaluation:
  "limitCumulativeDelay limit policy status w =
     (case policy status w of
        Inl e \<Rightarrow> Inl e
      | Inr (delay, w') \<Rightarrow>
          Inr (case delay of
                 Some d \<Rightarrow> if limit \<le>s d + cumulative_delay status then None else Some d
               | None \<Rightarrow> None, w'))"
  by (simp add: limitCumulativeDelay_def split: sum.splits prod.splits option.splits)

lemma wrappers_count_one:
  assumes "policy status w = Inr (delay, w')"
  shows "\<exists>r. capDelay maxDelay (counted policy) status (calls, w) = Inr (r, (Suc calls, w'))"
    and "\<exists>r. limitRetriesByDelay delayLimit (counted policy) status (calls, w)
           = Inr (r, (Suc calls, w'))"
    and "\<exists>r. limitCumulativeDelay limit (counted policy) status (calls, w)
           = Inr (r, (Suc calls, w'))"
  using assms
  by (simp_all add: capDelay_def limitRetriesByDelay_def limitCumulativeDelay_def counted_def
      split: option.splits)

text \<open>
  \<open>limitTimePoint\<close> calls it a second time unless the first delay reaches past the limit,
  and returns the result of the second call.
\<close>

lemma limitTimePoint_count:
  assumes "policy status w = Inr (delay, w1)" and "policy status w1 = Inr (delay', w2)"
  shows "limitTimePoint now time_point_limit (counted policy) status (calls, w) =
     (case delay of
        Some d \<Rightarrow>
          if time_point_limit <s d * 1000 + now (Suc calls, w1) then Inr (None, (Suc calls, w1))
          else Inr (delay', (Suc (Suc calls), w2))
      | None \<Rightarrow> Inr (delay', (Suc (Suc calls), w2)))"
  using assms by (simp add: limitTimePoint_def counted_def split: option.splits)

text \<open>
  C1, at \<open>limitTimePoint\<close>. With the clock at 0 and the limit one millisecond later, one
  call of \<open>limitTimePoint\<close> over a counting constant policy leaves the counter at 2, where
  \<open>capDelay\<close> leaves it at 1. Over \<open>fullJitter 100\<close> with the limit 50 microseconds away and
  a generator that produces 0 and then 100, the first draw (0) passes the check and the
  second (100) is returned, although it reaches past the limit; both draws are consumed.
\<close>

theorem limitTimePoint_evaluates_twice:
  "limitTimePoint (\<lambda>cw. 0) 1000000 (counted (constantDelay 100)) fresh_status (0, ())
     = Inr (Some 100, (2, ()))
   \<and> capDelay 1000 (counted (constantDelay 100)) fresh_status (0, ()) = Inr (Some 100, (1, ()))
   \<and> limitTimePoint (\<lambda>rs. 0) 50000 (fullJitter mod_uniform_int 100) fresh_status [0, 100]
     = Inr (Some 100, [])"
  by (simp add: limitTimePoint_def capDelay_def counted_def constantDelay_def fullJitter_def
      distribution_def mod_uniform_int_def std_min_def word_sless_alt fresh_status_def)

section \<open>limitRetries under simulate\<close>

text \<open>
  The loop of \<open>simulate\<close> over \<open>limitRetries n\<close>, entered with \<open>j \<le> n\<close> retries done: it
  appends the statuses numbered \<open>j + 1\<close> up to \<open>n\<close>, or up to \<open>j + k\<close> if the \<open>k\<close>
  iterations run out first.
\<close>

lemma simulate_loop_limitRetries:
  assumes "0 \<le> sint n" and "int j \<le> sint n"
  shows "simulate_loop (limitRetries n) k
           \<lparr>iteration_number = word_of_nat j, cumulative_delay = 0, previous_delay = pd\<rparr> xs w =
         Inr (xs @ map (\<lambda>i. \<lparr>iteration_number = word_of_nat i, cumulative_delay = 0,
                              previous_delay = Some 0\<rparr>)
                     [Suc j ..< Suc (min (j + k) (nat (sint n)))], w)"
  using assms(2)
proof (induction k arbitrary: j pd xs)
  case 0
  then show ?case by simp
next
  case (Suc k)
  have jlt: "j < 2 ^ 31" using Suc.prems sint_lt [of n] by simp
  have sj: "sint (word_of_nat j :: 32 word) = int j" by (rule sint_of_nat_32 [OF jlt])
  show ?case
  proof (cases "int j = sint n")
    case True
    then have "n \<le>s word_of_nat j" by (simp add: word_sle_eq sj)
    moreover have "min (j + Suc k) (nat (sint n)) = j" using True by simp
    ultimately show ?thesis by (simp add: apply_policy_def limitRetries_def)
  next
    case False
    then have lt: "int j < sint n" using Suc.prems by simp
    then have ns: "\<not> n \<le>s word_of_nat j" by (simp add: word_sle_eq sj)
    have step: "apply_policy (limitRetries n)
        \<lparr>iteration_number = word_of_nat j, cumulative_delay = 0, previous_delay = pd\<rparr> w =
        Inr (Some \<lparr>iteration_number = word_of_nat (Suc j), cumulative_delay = 0,
                    previous_delay = Some 0\<rparr>, w)"
      using ns by (simp add: apply_policy_def limitRetries_def)
    have le: "int (Suc j) \<le> sint n" using lt by simp
    have m: "min (j + Suc k) (nat (sint n)) = min (Suc j + k) (nat (sint n))" by simp
    have "Suc j < Suc (min (Suc j + k) (nat (sint n)))" using le by simp
    then have up: "[Suc j ..< Suc (min (Suc j + k) (nat (sint n)))] =
          Suc j # [Suc (Suc j) ..< Suc (min (Suc j + k) (nat (sint n)))]"
      by (rule upt_conv_Cons)
    show ?thesis
      by (simp only: simulate_loop.simps step sum.case prod.case option.case Suc.IH [OF le] m up)
        simp
  qed
qed

text \<open>
  C5. For \<open>n \<ge> 0\<close> (with \<open>n + 5\<close> an \<^verbatim>\<open>int\<close>, so that the call can be written),
  \<open>limitRetries(n).simulate(n + 5)\<close> returns exactly \<open>n\<close> statuses; the \<open>k\<close>-th of them
  (\<open>k = 1..n\<close>) has \<open>iteration_number = k\<close> and \<open>previous_delay = 0\<close>.
\<close>

theorem limitRetries_simulate:
  assumes "0 \<le> sint n" and "sint n + 5 < 2 ^ 31"
  shows "simulate (limitRetries n) (n + 5) w =
           Inr (map (\<lambda>k. \<lparr>iteration_number = word_of_nat k, cumulative_delay = 0,
                            previous_delay = Some 0\<rparr>) [1 ..< Suc (nat (sint n))], w)
         \<and> (\<forall>xs w'. simulate (limitRetries n) (n + 5) w = Inr (xs, w') \<longrightarrow>
               length xs = nat (sint n)
               \<and> (\<forall>k. 1 \<le> k \<and> k \<le> nat (sint n) \<longrightarrow>
                     xs ! (k - 1) =
                       \<lparr>iteration_number = word_of_nat k, cumulative_delay = 0,
                        previous_delay = Some 0\<rparr>
                     \<and> sint (iteration_number (xs ! (k - 1))) = int k))"
proof -
  let ?mk = "\<lambda>i. \<lparr>iteration_number = word_of_nat i, cumulative_delay = 0,
                   previous_delay = Some (0 :: microseconds)\<rparr>"
  let ?N = "nat (sint n)"
  have s5: "sint (n + 5) = sint n + 5"
  proof -
    have "sint (n + 5) = signed_take_bit 31 (sint n + sint (5 :: 32 word))"
      by (simp only: sint_word_add) simp
    also have "\<dots> = sint n + 5" using assms by (simp add: signed_take_bit_int_eq_self)
    finally show ?thesis .
  qed
  have k: "nat (sint (n + 5)) = ?N + 5" using assms(1) by (simp add: s5 nat_add_distrib)
  have f: "fresh_status = \<lparr>iteration_number = word_of_nat 0, cumulative_delay = 0,
                            previous_delay = None\<rparr>"
    by (simp add: fresh_status_def)
  have "int 0 \<le> sint n" using assms(1) by simp
  from simulate_loop_limitRetries [OF assms(1) this, of "?N + 5" None "[]" w]
  have sim: "simulate (limitRetries n) (n + 5) w = Inr (map ?mk [1 ..< Suc ?N], w)"
    by (simp add: simulate_def k f del: upt_Suc)
  have nth: "map ?mk [1 ..< Suc ?N] ! (k - 1) = ?mk k" if "1 \<le> k" "k \<le> ?N" for k
  proof -
    have "k - 1 < length [1 ..< Suc ?N]" using that by simp
    then have "map ?mk [1 ..< Suc ?N] ! (k - 1) = ?mk ([1 ..< Suc ?N] ! (k - 1))"
      by (rule nth_map)
    also have "[1 ..< Suc ?N] ! (k - 1) = 1 + (k - 1)"
      using that by (intro nth_upt) simp
    finally show ?thesis using that by simp
  qed
  have sk: "sint (word_of_nat k :: 32 word) = int k" if "k \<le> ?N" for k
  proof -
    have "int k \<le> sint n" using that assms(1) by simp
    then have "k < 2 ^ 31" using assms(2) by simp
    then show ?thesis by (rule sint_of_nat_32)
  qed
  have all: "\<forall>k. 1 \<le> k \<and> k \<le> ?N \<longrightarrow>
      map ?mk [1 ..< Suc ?N] ! (k - 1) = ?mk k
      \<and> sint (iteration_number (map ?mk [1 ..< Suc ?N] ! (k - 1))) = int k"
  proof (intro allI impI)
    fix k assume "1 \<le> k \<and> k \<le> ?N"
    then show "map ?mk [1 ..< Suc ?N] ! (k - 1) = ?mk k
      \<and> sint (iteration_number (map ?mk [1 ..< Suc ?N] ! (k - 1))) = int k"
      using nth [of k] sk [of k] by simp
  qed
  have len: "length (map ?mk [1 ..< Suc ?N]) = ?N" by simp
  show ?thesis unfolding sim using all len by blast
qed

theorem limitRetries_simulate_witness:
  "0 \<le> sint (3 :: 32 word) \<and> sint (3 :: 32 word) + 5 < 2 ^ 31
   \<and> simulate (limitRetries 3) (3 + 5) () =
       Inr ([\<lparr>iteration_number = 1, cumulative_delay = 0, previous_delay = Some 0\<rparr>,
             \<lparr>iteration_number = 2, cumulative_delay = 0, previous_delay = Some 0\<rparr>,
             \<lparr>iteration_number = 3, cumulative_delay = 0, previous_delay = Some 0\<rparr>], ())"
proof -
  have h: "0 \<le> sint (3 :: 32 word)" "sint (3 :: 32 word) + 5 < 2 ^ 31" by simp_all
  have "[1 ..< Suc (nat (sint (3 :: 32 word)))] = [1, 2, 3]"
    by (simp add: upt_rec)
  with limitRetries_simulate [OF h, of "()"] h show ?thesis by simp
qed

section \<open>exponentialBackoff under simulate\<close>

text \<open>What \<^verbatim>\<open>static_cast<int>(std::pow(2, i))\<close> yields up to \<open>i = 30\<close>, and at \<open>i = 31\<close>.\<close>

lemma pow2_int_small:
  assumes "i \<le> 30"
  shows "pow2_int (word_of_nat i) = 2 ^ i"
proof -
  have lt: "i < 2 ^ 31" using assms by simp
  have s: "sint (word_of_nat i :: 32 word) = int i" by (rule sint_of_nat_32 [OF lt])
  have u: "unat (word_of_nat i :: 32 word) = i" using assms by (simp add: unat_of_nat)
  show ?thesis using assms by (simp add: pow2_int_def word_sless_alt word_sle_eq s u)
qed

lemma pow2_int_31: "pow2_int 31 = 0x80000000"
  by (simp add: pow2_int_def word_sless_alt word_sle_eq)

text \<open>
  The loop of \<open>simulate\<close> over \<open>exponentialBackoff base\<close> never stops early; its \<open>l\<close>-th new
  status carries the delay computed at the iteration number it was computed from.
\<close>

lemma simulate_loop_exponentialBackoff:
  "\<exists>ys. simulate_loop (exponentialBackoff base) k status xs w = Inr (xs @ ys, w)
     \<and> length ys = k
     \<and> (\<forall>l<k. iteration_number (ys ! l) = iteration_number status + word_of_nat (Suc l)
            \<and> previous_delay (ys ! l) =
                Some (base * scast (pow2_int (iteration_number status + word_of_nat l))))"
proof (induction k arbitrary: status xs)
  case 0
  then show ?case by simp
next
  case (Suc k)
  define d where "d = base * scast (pow2_int (iteration_number status))"
  define status' where "status' = status\<lparr>iteration_number := iteration_number status + 1,
      cumulative_delay := cumulative_delay status + d, previous_delay := Some d\<rparr>"
  have step: "apply_policy (exponentialBackoff base) status w = Inr (Some status', w)"
    by (simp add: apply_policy_def exponentialBackoff_def status'_def d_def)
  from Suc.IH [of status' "xs @ [status']"] obtain ys where
    ys: "simulate_loop (exponentialBackoff base) k status' (xs @ [status']) w
           = Inr ((xs @ [status']) @ ys, w)"
      "length ys = k"
      "\<forall>l<k. iteration_number (ys ! l) = iteration_number status' + word_of_nat (Suc l)
            \<and> previous_delay (ys ! l) =
                Some (base * scast (pow2_int (iteration_number status' + word_of_nat l)))"
    by blast
  have a: "simulate_loop (exponentialBackoff base) (Suc k) status xs w
             = Inr (xs @ (status' # ys), w)"
    using ys(1) by (simp add: step)
  have b: "length (status' # ys) = Suc k" using ys(2) by simp
  have c: "\<forall>l<Suc k. iteration_number ((status' # ys) ! l)
              = iteration_number status + word_of_nat (Suc l)
            \<and> previous_delay ((status' # ys) ! l) =
                Some (base * scast (pow2_int (iteration_number status + word_of_nat l)))"
  proof (intro allI impI)
    fix l assume l: "l < Suc k"
    show "iteration_number ((status' # ys) ! l) = iteration_number status + word_of_nat (Suc l)
            \<and> previous_delay ((status' # ys) ! l) =
                Some (base * scast (pow2_int (iteration_number status + word_of_nat l)))"
    proof (cases l)
      case 0
      then show ?thesis by (simp add: status'_def d_def)
    next
      case (Suc l')
      then have "l' < k" using l by simp
      with ys(3) have "iteration_number (ys ! l') = iteration_number status' + word_of_nat (Suc l')"
        "previous_delay (ys ! l') =
                Some (base * scast (pow2_int (iteration_number status' + word_of_nat l')))"
        by simp_all
      moreover have "iteration_number status' = iteration_number status + 1"
        by (simp add: status'_def)
      ultimately show ?thesis using Suc by (simp add: ac_simps)
    qed
  qed
  from a b c show ?case by blast
qed

text \<open>
  Up to \<open>i = 30\<close> the delays double as the comment on \<open>exponentialBackoff\<close> says: the \<open>i\<close>-th
  status (counting from 0) of \<open>exponentialBackoff(base).simulate(k)\<close> has
  \<open>iteration_number = i + 1\<close> and \<open>previous_delay = base * 2 ^ i\<close>, the product taken in the
  64-bit arithmetic of \<^verbatim>\<open>microseconds\<close>: the exact integer product whenever that fits.
\<close>

lemma exponentialBackoff_simulate_upto_30:
  assumes "i < nat (sint k)" and "i \<le> 30"
  shows "\<exists>xs. simulate (exponentialBackoff base) k w = Inr (xs, w)
       \<and> length xs = nat (sint k)
       \<and> iteration_number (xs ! i) = word_of_nat (i + 1)
       \<and> sint (iteration_number (xs ! i)) = int i + 1
       \<and> previous_delay (xs ! i) = Some (base * 2 ^ i)
       \<and> (- (2 ^ 63) \<le> sint base * 2 ^ i \<and> sint base * 2 ^ i < 2 ^ 63 \<longrightarrow>
            sint (base * 2 ^ i) = sint base * 2 ^ i)"
proof -
  from simulate_loop_exponentialBackoff [of base "nat (sint k)" fresh_status "[]" w]
  obtain ys where
    ys: "simulate (exponentialBackoff base) k w = Inr (ys, w)" "length ys = nat (sint k)"
    and nth: "\<forall>l<nat (sint k).
        iteration_number (ys ! l) = iteration_number fresh_status + word_of_nat (Suc l)
        \<and> previous_delay (ys ! l) =
            Some (base * scast (pow2_int (iteration_number fresh_status + word_of_nat l)))"
    by (auto simp: simulate_def)
  have it: "iteration_number (ys ! i) = word_of_nat (i + 1)"
    using nth assms(1) by (simp add: fresh_status_def)
  have "i + 1 < 2 ^ 31" using assms(2) by simp
  then have "sint (word_of_nat (i + 1) :: 32 word) = int (i + 1)" by (rule sint_of_nat_32)
  then have its: "sint (iteration_number (ys ! i)) = int i + 1" by (simp add: it)
  have pd: "previous_delay (ys ! i) = Some (base * 2 ^ i)"
    using nth assms(1)
    by (simp add: fresh_status_def pow2_int_small [OF assms(2)] scast_pow2 [OF assms(2)])
  show ?thesis using ys it its pd sint_mult_pow2_64 [of base i] by simp
qed

text \<open>
  C4 fails at \<open>i = 31\<close>. \<open>2 ^ 31\<close> is computed in \<^verbatim>\<open>double\<close> and cast to \<^verbatim>\<open>int\<close>, which cannot
  hold it. With \<open>base = 1\<close> the 32nd status of \<open>simulate(32)\<close> should carry \<open>2 ^ 31\<close>
  microseconds, twice the delay before it and a value \<^verbatim>\<open>microseconds\<close> can hold; the delay
  computed is the sign-extended \<^verbatim>\<open>int\<close> instead, a negative one.
\<close>

theorem exponentialBackoff_overflow:
  "\<not> isl (simulate (exponentialBackoff 1) 32 ())
   \<and> length (fst (projr (simulate (exponentialBackoff 1) 32 ()))) = 32
   \<and> iteration_number (fst (projr (simulate (exponentialBackoff 1) 32 ())) ! 30) = 31
   \<and> previous_delay (fst (projr (simulate (exponentialBackoff 1) 32 ())) ! 30)
       = Some 1073741824
   \<and> iteration_number (fst (projr (simulate (exponentialBackoff 1) 32 ())) ! 31) = 32
   \<and> previous_delay (fst (projr (simulate (exponentialBackoff 1) 32 ())) ! 31)
       = Some (- 2147483648)
   \<and> previous_delay (fst (projr (simulate (exponentialBackoff 1) 32 ())) ! 31)
       \<noteq> Some (1 * 2 ^ 31)"
proof -
  from simulate_loop_exponentialBackoff [of 1 32 fresh_status "[]" "()"]
  obtain ys where
    ys: "simulate (exponentialBackoff 1) 32 () = Inr (ys, ())" "length ys = 32"
    and nth: "\<forall>l<32.
        iteration_number (ys ! l) = iteration_number fresh_status + word_of_nat (Suc l)
        \<and> previous_delay (ys ! l) =
            Some (1 * scast (pow2_int (iteration_number fresh_status + word_of_nat l)))"
    by (auto simp: simulate_def)
  have "iteration_number (ys ! 31) = 32" "previous_delay (ys ! 31) = Some (- 2147483648)"
    using nth [rule_format, of 31] by (simp_all add: fresh_status_def pow2_int_31)
  moreover have "iteration_number (ys ! 30) = 31" "previous_delay (ys ! 30) = Some 1073741824"
    using nth [rule_format, of 30]
    by (simp_all add: fresh_status_def pow2_int_def word_sless_alt word_sle_eq)
  ultimately show ?thesis using ys by simp
qed

section \<open>decorrelatedJitterBackoff\<close>

text \<open>
  The scripted distribution returns a number within every non-empty range it is given.
\<close>

lemma unat_diff_sle:
  fixes a b :: "32 word"
  assumes "a \<le>s b"
  shows "int (unat (b - a)) = sint b - sint a"
proof -
  have le: "sint a \<le> sint b" using assms by (simp add: word_sle_eq)
  have ra: "- (2 ^ 31) \<le> sint a" "sint a < 2 ^ 31" using sint_ge [of a] sint_lt [of a] by simp_all
  have rb: "- (2 ^ 31) \<le> sint b" "sint b < 2 ^ 31" using sint_ge [of b] sint_lt [of b] by simp_all
  have "b - a = word_of_int (sint b - sint a)" by simp
  then have "uint (b - a) = uint (word_of_int (sint b - sint a) :: 32 word)" by (simp only:)
  also have "\<dots> = take_bit 32 (sint b - sint a)" by (simp only: uint_word_of_int_eq) simp
  also have "\<dots> = sint b - sint a" using le ra rb by (intro take_bit_int_eq_self) auto
  finally show ?thesis by simp
qed

lemma sint_add_of_nat:
  fixes a b :: "32 word"
  assumes "sint a + int k \<le> sint b"
  shows "sint (a + word_of_nat k) = sint a + int k"
proof -
  have ra: "- (2 ^ 31) \<le> sint a" using sint_ge [of a] by simp
  have rb: "sint b < 2 ^ 31" using sint_lt [of b] by simp
  have "a + word_of_nat k = word_of_int (sint a + int k)" by simp
  then have "sint (a + word_of_nat k) = sint (word_of_int (sint a + int k) :: 32 word)" by (simp only:)
  also have "\<dots> = signed_take_bit 31 (sint a + int k)" by (simp only: sint_sbintrunc') simp
  also have "\<dots> = sint a + int k" using assms ra rb by (intro signed_take_bit_int_eq_self) auto
  finally show ?thesis .
qed

lemma mod_uniform_int_range:
  assumes "a \<le>s b"
  shows "a \<le>s fst (mod_uniform_int a b rs) \<and> fst (mod_uniform_int a b rs) \<le>s b"
proof (cases rs)
  case Nil
  then show ?thesis using assms by (simp add: mod_uniform_int_def)
next
  case (Cons r rest)
  define k where "k = unat r mod (unat (b - a) + 1)"
  have "k \<le> unat (b - a)" unfolding k_def
    using mod_less_divisor [of "unat (b - a) + 1" "unat r"] by simp
  then have "int k \<le> int (unat (b - a))" by (simp only: of_nat_le_iff)
  then have "int k \<le> sint b - sint a" by (simp only: unat_diff_sle [OF assms])
  then have "sint (a + word_of_nat k) = sint a + int k" "sint a + int k \<le> sint b"
    using sint_add_of_nat [of a k b] by simp_all
  moreover have "fst (mod_uniform_int a b rs) = a + word_of_nat k"
    using Cons by (simp add: mod_uniform_int_def k_def)
  ultimately have "sint (fst (mod_uniform_int a b rs)) = sint a + int k" "sint a + int k \<le> sint b"
    by (simp_all only:)
  then show ?thesis by (simp only: word_sle_eq) simp
qed

text \<open>
  The bound handed to the distribution is \<^verbatim>\<open>prev.count() * 3\<close> narrowed to \<^verbatim>\<open>int\<close>. It is
  \<open>3 * prev\<close> itself while that is below \<open>2 ^ 31\<close>, and never above \<open>3 * prev\<close> for
  \<open>prev \<ge> 0\<close>.
\<close>

lemma trunc_exact:
  fixes p :: "64 word"
  assumes "0 \<le> 3 * sint p" "3 * sint p < 2 ^ 31"
  shows "sint (ucast (p * 3) :: 32 word) = 3 * sint p"
proof -
  have eq64: "(word_of_int (sint p * 3) :: 64 word) = p * 3" by simp
  have "(ucast (word_of_int (sint p * 3) :: 64 word) :: 32 word) = word_of_int (sint p * 3)"
    by (rule ucast_down_wi) (simp add: is_down)
  then have "(ucast (p * 3) :: 32 word) = word_of_int (sint p * 3)"
    by (simp only: eq64)
  then have "sint (ucast (p * 3) :: 32 word) = sint (word_of_int (sint p * 3) :: 32 word)"
    by (simp only:)
  also have "\<dots> = signed_take_bit 31 (sint p * 3)"
    by (simp only: sint_sbintrunc') simp
  also have "\<dots> = sint p * 3" using assms by (intro signed_take_bit_int_eq_self) auto
  finally show ?thesis by simp
qed

lemma int_bound_le:
  fixes p :: "64 word"
  assumes "0 \<le> sint p"
  shows "sint (ucast (p * 3) :: 32 word) \<le> 3 * sint p"
proof (cases "3 * sint p < 2 ^ 31")
  case True
  then show ?thesis using trunc_exact [of p] assms by simp
next
  case False
  moreover have "sint (ucast (p * 3) :: 32 word) < 2 ^ 31"
    using sint_lt [of "ucast (p * 3) :: 32 word"] by simp
  ultimately show ?thesis by simp
qed

lemma sint_scast_32_64: "sint (scast (r :: 32 word) :: 64 word) = sint r"
  by (rule sint_up_scast) (simp add: is_up)

text \<open>
  Without a \<open>previous_delay\<close> the policy stops. With \<open>previous_delay = p \<ge> 0\<close> and an
  \<^verbatim>\<open>int\<close> bound \<^verbatim>\<open>(int)(3p)\<close> that is not negative, which is so whenever \<open>3p < 2 ^ 31\<close>, it
  returns a delay in \<open>[0, 3p]\<close>, provided the random source returns a number within the
  range it is given.
\<close>

lemma decorrelatedJitterBackoff_range:
  assumes "\<forall>a b w. a \<le>s b \<longrightarrow> a \<le>s fst (uniform_int a b w) \<and> fst (uniform_int a b w) \<le>s b"
  shows "(previous_delay status = None \<longrightarrow>
            decorrelatedJitterBackoff uniform_int base status w = Inr (None, w))
       \<and> (\<forall>p. previous_delay status = Some p \<and> 0 \<le> sint p
              \<and> 0 \<le>s (ucast (p * 3) :: 32 word) \<longrightarrow>
            (\<exists>d w'. decorrelatedJitterBackoff uniform_int base status w = Inr (Some d, w')
               \<and> 0 \<le> sint d \<and> sint d \<le> 3 * sint p))
       \<and> (\<forall>p :: microseconds. 0 \<le> sint p \<and> 3 * sint p < 2 ^ 31 \<longrightarrow>
            0 \<le>s (ucast (p * 3) :: 32 word) \<and> sint (ucast (p * 3) :: 32 word) = 3 * sint p)"
proof (intro conjI allI impI)
  assume "previous_delay status = None"
  then show "decorrelatedJitterBackoff uniform_int base status w = Inr (None, w)"
    by (simp add: decorrelatedJitterBackoff_def)
next
  fix p
  assume h: "previous_delay status = Some p \<and> 0 \<le> sint p \<and> 0 \<le>s (ucast (p * 3) :: 32 word)"
  define r where "r = fst (uniform_int 0 (ucast (p * 3)) w)"
  define w' where "w' = snd (uniform_int 0 (ucast (p * 3)) w)"
  have "0 \<le>s r \<and> r \<le>s ucast (p * 3)" unfolding r_def using assms h by blast
  then have "0 \<le> sint r" "sint r \<le> sint (ucast (p * 3) :: 32 word)"
    by (simp_all add: word_sle_eq)
  moreover have "sint (ucast (p * 3) :: 32 word) \<le> 3 * sint p"
    using h by (intro int_bound_le) simp
  moreover have "\<not> (ucast (p * 3) :: 32 word) <s 0"
    using h by (simp add: word_sle_eq word_sless_alt)
  then have "decorrelatedJitterBackoff uniform_int base status w = Inr (Some (scast r), w')"
    using h by (simp add: decorrelatedJitterBackoff_def distribution_def r_def w'_def
        split: prod.splits)
  ultimately show "\<exists>d w'. decorrelatedJitterBackoff uniform_int base status w = Inr (Some d, w')
               \<and> 0 \<le> sint d \<and> sint d \<le> 3 * sint p"
    by (simp add: sint_scast_32_64)
next
  fix p :: microseconds
  assume "0 \<le> sint p \<and> 3 * sint p < 2 ^ 31"
  then show "0 \<le>s (ucast (p * 3) :: 32 word)"
    using trunc_exact [of p] by (simp add: word_sle_eq)
next
  fix p :: microseconds
  assume "0 \<le> sint p \<and> 3 * sint p < 2 ^ 31"
  then show "sint (ucast (p * 3) :: 32 word) = 3 * sint p"
    using trunc_exact [of p] by simp
qed

text \<open>
  C8 fails once \<open>3p\<close> does not fit an \<^verbatim>\<open>int\<close>. For \<open>p = 800000000\<close> (800 seconds)
  \<open>3p = 2400000000\<close> is narrowed to \<open>-1894967296\<close>, and the distribution is built on the
  empty range \<open>[0, -1894967296]\<close>, outside its precondition: whatever the generator, the
  call has no defined result, where the claim promises a delay between 0 and 2400
  seconds.
\<close>

theorem decorrelatedJitterBackoff_undefined:
  "decorrelatedJitterBackoff uniform_int 10
     \<lparr>iteration_number = 1, cumulative_delay = 800000000, previous_delay = Some 800000000\<rparr> w
     = Inl UndefinedBehaviour
   \<and> 3 * sint (800000000 :: microseconds) = 2400000000
   \<and> sint (ucast (800000000 * 3 :: microseconds) :: 32 word) = - 1894967296"
  by (simp add: decorrelatedJitterBackoff_def distribution_def word_sless_alt)

section \<open>retry\<close>

lemma retry_loop_after_passes:
  "retry_passes k sleep_for policy shouldRetry action status w = Some (status', w') \<Longrightarrow>
   retry_loop sleep_for policy shouldRetry action status w =
   retry_loop sleep_for policy shouldRetry action status' w'"
proof (induction k arbitrary: status w)
  case 0
  then show ?case by simp
next
  case (Suc k)
  obtain result w1 where a: "action status w = (result, w1)" by (cases "action status w")
  obtain again w2 where s: "shouldRetry status result w1 = (again, w2)"
    by (cases "shouldRetry status result w1")
  from Suc.prems a s obtain st1 w3 where
    ag: "again" and d: "applyAndDelay sleep_for policy status w2 = Inr (Some st1, w3)"
    and r: "retry_passes k sleep_for policy shouldRetry action st1 w3 = Some (status', w')"
    by (auto split: if_splits sum.splits option.splits)
  have "retry_loop sleep_for policy shouldRetry action status w =
        retry_loop sleep_for policy shouldRetry action st1 w3"
    by (subst retry_loop.simps) (simp add: a s d ag)
  also have "\<dots> = retry_loop sleep_for policy shouldRetry action status' w'"
    by (rule Suc.IH [OF r])
  finally show ?case .
qed

lemma applyAndDelay_stop:
  "policy status w = Inr (None, w') \<Longrightarrow>
   applyAndDelay sleep_for policy status w = Inr (None, w')"
  by (simp add: applyAndDelay_def apply_policy_def)

lemma applyAndDelay_None:
  "applyAndDelay sleep_for policy status w = Inr (None, w') \<Longrightarrow>
   policy status w = Inr (None, w')"
  by (auto simp: applyAndDelay_def apply_policy_def split: sum.splits prod.splits option.splits)

lemma retry_loop_Some:
  assumes "retry_loop sleep_for policy shouldRetry action status w = Some z"
  shows "\<forall>r w'. z = Inr (r, w') \<longrightarrow>
           (\<exists>k st wk w1 again w2.
              retry_passes k sleep_for policy shouldRetry action status w = Some (st, wk)
              \<and> action st wk = (r, w1)
              \<and> shouldRetry st r w1 = (again, w2)
              \<and> (if again then policy st w2 = Inr (None, w') else w' = w2))"
proof (rule retry_loop.raw_induct
    [where P = "\<lambda>sleep_for policy shouldRetry action status w z.
       \<forall>r w'. z = Inr (r, w') \<longrightarrow>
           (\<exists>k st wk w1 again w2.
              retry_passes k sleep_for policy shouldRetry action status w = Some (st, wk)
              \<and> action st wk = (r, w1)
              \<and> shouldRetry st r w1 = (again, w2)
              \<and> (if again then policy st w2 = Inr (None, w') else w' = w2))", OF _ assms],
    goal_cases)
  case (1 loop sleep_for policy shouldRetry action status w z)
  obtain result w1 where a: "action status w = (result, w1)" by (cases "action status w")
  obtain again w2 where s: "shouldRetry status result w1 = (again, w2)"
    by (cases "shouldRetry status result w1")
  have p0: "retry_passes 0 sleep_for policy shouldRetry action status w = Some (status, w)"
    by simp
  show ?case
  proof (intro allI impI)
    fix r w' assume z: "z = Inr (r, w')"
    show "\<exists>k st wk w1 again w2.
              retry_passes k sleep_for policy shouldRetry action status w = Some (st, wk)
              \<and> action st wk = (r, w1)
              \<and> shouldRetry st r w1 = (again, w2)
              \<and> (if again then policy st w2 = Inr (None, w') else w' = w2)"
    proof (cases again)
      case False
      with 1(2) a s z have "r = result" "w' = w2" by simp_all
      with a s False p0 show ?thesis by (metis (full_types))
    next
      case True
      show ?thesis
      proof (cases "applyAndDelay sleep_for policy status w2")
        case (Inl e)
        with 1(2) a s z True show ?thesis by simp
      next
        case (Inr ow)
        obtain ost w3 where ow: "ow = (ost, w3)" by (cases ow)
        show ?thesis
        proof (cases ost)
          case None
          with 1(2) a s z True Inr ow have y: "r = result" "w' = w3" by simp_all
          have p: "policy status w2 = Inr (None, w3)"
            using Inr ow None by (auto dest: applyAndDelay_None)
          with a s True y p0 show ?thesis by (metis (full_types))
        next
          case (Some ns)
          with 1(2) a s True Inr ow
          have "loop sleep_for policy shouldRetry action ns w3 = Some z" by simp
          from 1(1) [OF this] z obtain k st wk w1' again' w2' where
            r: "retry_passes k sleep_for policy shouldRetry action ns w3 = Some (st, wk)"
            and rest: "action st wk = (r, w1')" "shouldRetry st r w1' = (again', w2')"
              "if again' then policy st w2' = Inr (None, w') else w' = w2'"
            by blast
          have "retry_passes (Suc k) sleep_for policy shouldRetry action status w = Some (st, wk)"
            using a s True Inr ow Some r by simp
          with rest show ?thesis by blast
        qed
      qed
    qed
  qed
qed

text \<open>
  C9. Whenever a pass of \<open>retry\<close> ends with the predicate answering false, \<open>retry\<close> returns
  the result the action produced in that pass; whenever it ends with the policy answering
  stop, \<open>retry\<close> returns that same result, unchanged. Conversely every value \<open>retry\<close>
  returns is the result of the action in the last pass, one that ended in either way:
  nothing else is ever returned.
\<close>

theorem retry_returns_last_result:
  "(retry_passes k sleep_for policy shouldRetry action fresh_status w = Some (status, wk)
      \<and> action status wk = (result, w1) \<and> shouldRetry status result w1 = (again, w2) \<longrightarrow>
      (\<not> again \<longrightarrow> retry sleep_for policy shouldRetry action w = Some (Inr (result, w2)))
      \<and> (again \<and> policy status w2 = Inr (None, w3) \<longrightarrow>
           retry sleep_for policy shouldRetry action w = Some (Inr (result, w3))))
   \<and> (retry sleep_for policy shouldRetry action w = Some (Inr (r, w')) \<longrightarrow>
        (\<exists>k' st wk' w1' again' w2'.
           retry_passes k' sleep_for policy shouldRetry action fresh_status w = Some (st, wk')
           \<and> action st wk' = (r, w1')
           \<and> shouldRetry st r w1' = (again', w2')
           \<and> (if again' then policy st w2' = Inr (None, w') else w' = w2')))"
proof (intro conjI impI)
  assume h: "retry_passes k sleep_for policy shouldRetry action fresh_status w = Some (status, wk)
      \<and> action status wk = (result, w1) \<and> shouldRetry status result w1 = (again, w2)"
  then have h1: "retry_passes k sleep_for policy shouldRetry action fresh_status w
      = Some (status, wk)"
    by simp
  have eq: "retry sleep_for policy shouldRetry action w =
            retry_loop sleep_for policy shouldRetry action status wk"
    unfolding retry_def by (rule retry_loop_after_passes [OF h1])
  {
    assume "\<not> again"
    then have "retry_loop sleep_for policy shouldRetry action status wk = Some (Inr (result, w2))"
      using h by (subst retry_loop.simps) simp
    then show "retry sleep_for policy shouldRetry action w = Some (Inr (result, w2))"
      by (simp only: eq)
  }
  {
    assume "again \<and> policy status w2 = Inr (None, w3)"
    then have "retry_loop sleep_for policy shouldRetry action status wk = Some (Inr (result, w3))"
      using h by (subst retry_loop.simps) (simp add: applyAndDelay_stop)
    then show "retry sleep_for policy shouldRetry action w = Some (Inr (result, w3))"
      by (simp only: eq)
  }
next
  assume "retry sleep_for policy shouldRetry action w = Some (Inr (r, w'))"
  then have "retry_loop sleep_for policy shouldRetry action fresh_status w = Some (Inr (r, w'))"
    by (simp only: retry_def)
  from retry_loop_Some [OF this]
  show "\<exists>k' st wk' w1' again' w2'.
           retry_passes k' sleep_for policy shouldRetry action fresh_status w = Some (st, wk')
           \<and> action st wk' = (r, w1')
           \<and> shouldRetry st r w1' = (again', w2')
           \<and> (if again' then policy st w2' = Inr (None, w') else w' = w2')"
    by blast
qed

theorem retry_returns_last_result_witness:
  "retry_passes (Suc (Suc 0)) (\<lambda>d w. w) (limitRetries 2) (\<lambda>st r w. (True, w))
       (\<lambda>st w. (iteration_number st, Suc w)) fresh_status 0
     = Some (\<lparr>iteration_number = 2, cumulative_delay = 0, previous_delay = Some 0\<rparr>, 2)
   \<and> limitRetries 2 \<lparr>iteration_number = 2, cumulative_delay = 0, previous_delay = Some 0\<rparr> (3 :: nat)
     = Inr (None, 3)
   \<and> retry (\<lambda>d w. w) (limitRetries 2) (\<lambda>st r w. (True, w))
       (\<lambda>st w. (iteration_number st, Suc w)) 0 = Some (Inr (2, 3))
   \<and> retry_passes (Suc 0) (\<lambda>d w. w) (limitRetries 2) (\<lambda>st r w. (r \<noteq> 1, w))
       (\<lambda>st w. (iteration_number st, Suc w)) fresh_status 0
     = Some (\<lparr>iteration_number = 1, cumulative_delay = 0, previous_delay = Some 0\<rparr>, 1)
   \<and> retry (\<lambda>d w. w) (limitRetries 2) (\<lambda>st r w. (r \<noteq> 1, w))
       (\<lambda>st w. (iteration_number st, Suc w)) 0 = Some (Inr (1, 2))"
  using retry_returns_last_result [of "Suc (Suc 0)" "\<lambda>d w. w" "limitRetries 2"
      "\<lambda>st r w. (True, w)" "\<lambda>st w. (iteration_number st, Suc w)" 0
      "\<lparr>iteration_number = 2, cumulative_delay = 0, previous_delay = Some 0\<rparr>" 2 2 3 True 3 3]
    retry_returns_last_result [of "Suc 0" "\<lambda>d w. w" "limitRetries 2"
      "\<lambda>st r w. (r \<noteq> 1, w)" "\<lambda>st w. (iteration_number st, Suc w)" 0
      "\<lparr>iteration_number = 1, cumulative_delay = 0, previous_delay = Some 0\<rparr>" 1 1 2 False 2]
  by (simp add: applyAndDelay_def apply_policy_def limitRetries_def fresh_status_def word_sle_eq)

section \<open>Preemption\<close>

text \<open>
  The loop of \<open>simulate\<close> with an accumulator is the loop started on the empty list, with
  the accumulator in front. It yields at most as many statuses as it has iterations, and
  the first of them is one retry after the status it started from.
\<close>

lemma simulate_loop_append:
  "simulate_loop policy k status xs w =
     (case simulate_loop policy k status [] w of
        Inl e \<Rightarrow> Inl e
      | Inr (ys, w') \<Rightarrow> Inr (xs @ ys, w'))"
proof (induction k arbitrary: status xs w)
  case 0
  then show ?case by simp
next
  case (Suc k)
  show ?case
  proof (cases "apply_policy policy status w")
    case (Inl e)
    then show ?thesis by simp
  next
    case (Inr ow)
    obtain ost w' where ow: "ow = (ost, w')" by (cases ow)
    show ?thesis
    proof (cases ost)
      case None
      with Inr ow show ?thesis by simp
    next
      case (Some st')
      have l: "simulate_loop policy (Suc k) status xs w =
               simulate_loop policy k st' (xs @ [st']) w'"
        using Inr ow Some by simp
      have r: "simulate_loop policy (Suc k) status [] w = simulate_loop policy k st' [st'] w'"
        using Inr ow Some by simp
      show ?thesis
        unfolding l r
        by (subst Suc.IH [of st' "xs @ [st']"], subst Suc.IH [of st' "[st']"])
          (simp split: sum.splits)
    qed
  qed
qed

lemma simulate_loop_Suc:
  "simulate_loop policy (Suc k) status [] w =
     (case apply_policy policy status w of
        Inl e \<Rightarrow> Inl e
      | Inr (None, w') \<Rightarrow> Inr ([], w')
      | Inr (Some st', w') \<Rightarrow>
          (case simulate_loop policy k st' [] w' of
             Inl e \<Rightarrow> Inl e
           | Inr (ys, w'') \<Rightarrow> Inr (st' # ys, w'')))"
  by (simp add: simulate_loop_append [of policy k _ "[_]"]
      split: sum.splits prod.splits option.splits)

lemma simulate_loop_length_le:
  "simulate_loop policy k status [] w = Inr (ys, w') \<Longrightarrow> length ys \<le> k"
proof (induction k arbitrary: status w ys)
  case 0
  then show ?case by simp
next
  case (Suc k)
  from Suc.prems show ?case
    by (auto simp: simulate_loop_Suc simp del: simulate_loop.simps
        split: sum.splits prod.splits option.splits dest: Suc.IH)
qed

lemma simulate_loop_first:
  "simulate_loop policy k status [] w = Inr (y # ys, w') \<Longrightarrow>
   iteration_number y = iteration_number status + 1"
proof (cases k)
  case 0
  assume "simulate_loop policy k status [] w = Inr (y # ys, w')"
  with 0 show ?thesis by simp
next
  case (Suc k')
  assume "simulate_loop policy k status [] w = Inr (y # ys, w')"
  with Suc show ?thesis
    by (auto simp: simulate_loop_Suc apply_policy_def simp del: simulate_loop.simps
        split: sum.splits prod.splits option.splits)
qed

text \<open>
  Both loops of \<open>PreemptibleRetry::simulate\<close> are the loop of \<open>RetryPolicy::simulate\<close> with
  each status wrapped, and run to their end iff that one yields all its statuses.
\<close>

lemma simulate_phase_simulate_loop:
  "simulate_phase policy signalled k status xs w =
     (case simulate_loop policy k status [] w of
        Inl e \<Rightarrow> Inl e
      | Inr (ys, w') \<Rightarrow>
          Inr ((length ys = k, xs @ map (\<lambda>s. PreemptibleRetryStatus_of s signalled) ys), w'))"
proof (induction k arbitrary: status xs w)
  case 0
  then show ?case by simp
next
  case (Suc k)
  show ?case
    by (simp add: simulate_loop_Suc Suc.IH del: simulate_loop.simps
        split: sum.splits prod.splits option.splits)
qed

lemma preemptible_simulate_simulate:
  "preemptible_simulate this n_before n_after w =
     (case simulate (policy_before this) n_before w of
        Inl e \<Rightarrow> Inl e
      | Inr (bs, wb) \<Rightarrow>
          if length bs \<noteq> nat (sint n_before)
          then Inr (map (\<lambda>s. PreemptibleRetryStatus_of s False) bs, wb)
          else (case simulate (policy_after this) n_after wb of
                  Inl e \<Rightarrow> Inl e
                | Inr (as, wa) \<Rightarrow>
                    Inr (map (\<lambda>s. PreemptibleRetryStatus_of s False) bs
                         @ map (\<lambda>s. PreemptibleRetryStatus_of s True) as, wa)))"
  by (simp add: preemptible_simulate_def simulate_def simulate_phase_simulate_loop
      split: sum.splits prod.splits)

text \<open>
  The reset is tied to the flag of the incoming status. When the predicate is found true
  on a status whose flag is not set (the condition was raised outside a wait), the \<open>after\<close>
  policy is applied to that status as it is.
\<close>

lemma applyAndPreemptibleDelay_unsignalled:
  assumes "\<not> condition_signalled status0" and "cond w = (True, w1)"
  shows "applyAndPreemptibleDelay sleep_for wait_for this cond status0 w =
           (case applyAndDelay sleep_for (policy_after this) (RetryStatus.truncate status0) w1 of
              Inl e \<Rightarrow> Inl e
            | Inr (Some status, w2) \<Rightarrow> Inr (Some (PreemptibleRetryStatus_of status False), w2)
            | Inr (None, w2) \<Rightarrow> Inr (None, w2))"
  using assms by (simp add: applyAndPreemptibleDelay_def)

text \<open>
  C7, as the code has it. When the condition holds and the incoming status has
  \<open>condition_signalled\<close> set, whatever its counters, the \<open>after\<close> policy is evaluated at the
  fresh status (\<open>iteration_number = 0\<close>, \<open>cumulative_delay = 0\<close>, no \<open>previous_delay\<close>), and the
  status returned, the first of the \<open>after\<close> phase, has \<open>iteration_number = 1\<close> and the
  flag cleared. Likewise in \<open>simulate\<close> the statuses of the \<open>after\<close> phase are those of the
  \<open>after\<close> policy simulated from the fresh status, and the first of them, which follows the
  \<open>n_before\<close> statuses of the \<open>before\<close> phase, has \<open>iteration_number = 1\<close>, however many
  statuses the \<open>before\<close> phase produced.
\<close>

theorem preemption_resets_status:
  assumes "condition_signalled status0" and "cond w = (True, w1)"
  shows "applyAndPreemptibleDelay sleep_for wait_for this cond status0 w =
           (case policy_after this
                   \<lparr>iteration_number = 0, cumulative_delay = 0, previous_delay = None\<rparr> w1 of
              Inl e \<Rightarrow> Inl e
            | Inr (None, w2) \<Rightarrow> Inr (None, w2)
            | Inr (Some d, w2) \<Rightarrow>
                Inr (Some \<lparr>iteration_number = 1, cumulative_delay = d, previous_delay = Some d,
                            condition_signalled = False\<rparr>, sleep_for d w2))
       \<and> preemptible_simulate this n_before n_after w' =
           (case simulate (policy_before this) n_before w' of
              Inl e \<Rightarrow> Inl e
            | Inr (bs, wb) \<Rightarrow>
                if length bs \<noteq> nat (sint n_before)
                then Inr (map (\<lambda>s. PreemptibleRetryStatus_of s False) bs, wb)
                else (case simulate (policy_after this) n_after wb of
                        Inl e \<Rightarrow> Inl e
                      | Inr (as, wa) \<Rightarrow>
                          Inr (map (\<lambda>s. PreemptibleRetryStatus_of s False) bs
                               @ map (\<lambda>s. PreemptibleRetryStatus_of s True) as, wa)))
       \<and> (\<forall>xs wa. preemptible_simulate this n_before n_after w' = Inr (xs, wa)
              \<and> nat (sint n_before) < length xs \<longrightarrow>
            iteration_number (xs ! nat (sint n_before)) = 1
            \<and> condition_signalled (xs ! nat (sint n_before))
            \<and> (\<forall>j < nat (sint n_before). \<not> condition_signalled (xs ! j)))"
proof (intro conjI allI impI)
  show "applyAndPreemptibleDelay sleep_for wait_for this cond status0 w =
           (case policy_after this
                   \<lparr>iteration_number = 0, cumulative_delay = 0, previous_delay = None\<rparr> w1 of
              Inl e \<Rightarrow> Inl e
            | Inr (None, w2) \<Rightarrow> Inr (None, w2)
            | Inr (Some d, w2) \<Rightarrow>
                Inr (Some \<lparr>iteration_number = 1, cumulative_delay = d, previous_delay = Some d,
                            condition_signalled = False\<rparr>, sleep_for d w2))"
    using assms
    by (simp add: applyAndPreemptibleDelay_def applyAndDelay_def apply_policy_def
        fresh_preemptible_status_def RetryStatus.truncate_def PreemptibleRetryStatus_of_def
        split: sum.splits prod.splits option.splits)
next
  show "preemptible_simulate this n_before n_after w' =
           (case simulate (policy_before this) n_before w' of
              Inl e \<Rightarrow> Inl e
            | Inr (bs, wb) \<Rightarrow>
                if length bs \<noteq> nat (sint n_before)
                then Inr (map (\<lambda>s. PreemptibleRetryStatus_of s False) bs, wb)
                else (case simulate (policy_after this) n_after wb of
                        Inl e \<Rightarrow> Inl e
                      | Inr (as, wa) \<Rightarrow>
                          Inr (map (\<lambda>s. PreemptibleRetryStatus_of s False) bs
                               @ map (\<lambda>s. PreemptibleRetryStatus_of s True) as, wa)))"
    by (rule preemptible_simulate_simulate)
next
  fix xs wa
  assume h: "preemptible_simulate this n_before n_after w' = Inr (xs, wa)
              \<and> nat (sint n_before) < length xs"
  let ?nb = "nat (sint n_before)"
  let ?F = "\<lambda>s. PreemptibleRetryStatus_of s False"
  let ?T = "\<lambda>s. PreemptibleRetryStatus_of s True"
  from h obtain bs wb where
    b: "simulate (policy_before this) n_before w' = Inr (bs, wb)"
    by (auto simp: preemptible_simulate_simulate split: sum.splits)
  have ble: "length bs \<le> ?nb"
    using b by (auto simp: simulate_def dest: simulate_loop_length_le)
  have beq: "length bs = ?nb"
  proof (rule ccontr)
    assume "length bs \<noteq> ?nb"
    with h b have "xs = map ?F bs" by (simp add: preemptible_simulate_simulate)
    with ble h show False by simp
  qed
  with h b obtain as where
    a: "simulate (policy_after this) n_after wb = Inr (as, wa)"
    and xs: "xs = map ?F bs @ map ?T as"
    by (auto simp: preemptible_simulate_simulate split: sum.splits)
  from h xs beq obtain y ys where as: "as = y # ys" by (cases as) auto
  have "iteration_number y = iteration_number fresh_status + 1"
    using a as by (auto simp: simulate_def dest: simulate_loop_first)
  then have y1: "iteration_number y = 1" by (simp add: fresh_status_def)
  have nth: "xs ! ?nb = ?T y" using xs beq as by (simp add: nth_append)
  have before: "\<not> condition_signalled (xs ! j)" if "j < ?nb" for j
    using that xs beq by (simp add: nth_append PreemptibleRetryStatus_of_def)
  show "iteration_number (xs ! ?nb) = 1" using nth y1 by (simp add: PreemptibleRetryStatus_of_def)
  show "condition_signalled (xs ! ?nb)" using nth by (simp add: PreemptibleRetryStatus_of_def)
  show "\<And>j. j < ?nb \<Longrightarrow> \<not> condition_signalled (xs ! j)" using before by simp
qed


theorem preemption_resets_status_witness:
  "condition_signalled \<lparr>iteration_number = 1000, cumulative_delay = 100000,
       previous_delay = Some 100, condition_signalled = True\<rparr>
   \<and> (\<lambda>w. (True, w)) () = (True, ())
   \<and> applyAndPreemptibleDelay (\<lambda>d w. w) (\<lambda>d c w. (False, w))
        \<lparr>policy_before = constantDelay 100, policy_after = exponentialBackoff 10\<rparr>
        (\<lambda>w. (True, w))
        \<lparr>iteration_number = 1000, cumulative_delay = 100000,
         previous_delay = Some 100, condition_signalled = True\<rparr> ()
      = Inr (Some \<lparr>iteration_number = 1, cumulative_delay = 10, previous_delay = Some 10,
                   condition_signalled = False\<rparr>, ())
   \<and> preemptible_simulate
        \<lparr>policy_before = constantDelay 100, policy_after = exponentialBackoff 10\<rparr> 2 2 ()
      = Inr ([\<lparr>iteration_number = 1, cumulative_delay = 100, previous_delay = Some 100,
               condition_signalled = False\<rparr>,
              \<lparr>iteration_number = 2, cumulative_delay = 200, previous_delay = Some 100,
               condition_signalled = False\<rparr>,
              \<lparr>iteration_number = 1, cumulative_delay = 10, previous_delay = Some 10,
               condition_signalled = True\<rparr>,
              \<lparr>iteration_number = 2, cumulative_delay = 30, previous_delay = Some 20,
               condition_signalled = True\<rparr>], ())"
proof -
  have sim: "preemptible_simulate
        \<lparr>policy_before = constantDelay 100, policy_after = exponentialBackoff 10\<rparr> 2 2 ()
      = Inr ([\<lparr>iteration_number = 1, cumulative_delay = 100, previous_delay = Some 100,
               condition_signalled = False\<rparr>,
              \<lparr>iteration_number = 2, cumulative_delay = 200, previous_delay = Some 100,
               condition_signalled = False\<rparr>,
              \<lparr>iteration_number = 1, cumulative_delay = 10, previous_delay = Some 10,
               condition_signalled = True\<rparr>,
              \<lparr>iteration_number = 2, cumulative_delay = 30, previous_delay = Some 20,
               condition_signalled = True\<rparr>], ())"
    by (simp add: preemptible_simulate_def eval_nat_numeral apply_policy_def constantDelay_def
        exponentialBackoff_def pow2_int_def word_sless_alt word_sle_eq fresh_status_def
        PreemptibleRetryStatus_of_def)
  show ?thesis
    using preemption_resets_status [of
      "\<lparr>iteration_number = 1000, cumulative_delay = 100000,
        previous_delay = Some 100, condition_signalled = True\<rparr>"
      "\<lambda>w. (True, w)" "()" "()" "\<lambda>d w. w" "\<lambda>d c w. (False, w)"
      "\<lparr>policy_before = constantDelay 100, policy_after = exponentialBackoff 10\<rparr>" 2 2 "()"]
      sim
    by (simp add: exponentialBackoff_def pow2_int_def word_sless_alt word_sle_eq)
qed

text \<open>
  C7 as stated says that the first status of the \<open>after\<close> phase has \<open>iteration_number = 0\<close>.
  It has 1: the fresh status is what the \<open>after\<close> policy is applied to, and applying a
  policy counts one retry. After two statuses of a constant \<open>before\<close> policy, the first
  status of the \<open>after\<close> phase is number 1, in \<open>simulate\<close> and in
  \<open>applyAndPreemptibleDelay\<close> alike.
\<close>

theorem after_phase_starts_at_one:
  "preemptible_simulate
        \<lparr>policy_before = constantDelay 100, policy_after = constantDelay 10\<rparr> 2 3 ()
      = Inr ([\<lparr>iteration_number = 1, cumulative_delay = 100, previous_delay = Some 100,
               condition_signalled = False\<rparr>,
              \<lparr>iteration_number = 2, cumulative_delay = 200, previous_delay = Some 100,
               condition_signalled = False\<rparr>,
              \<lparr>iteration_number = 1, cumulative_delay = 10, previous_delay = Some 10,
               condition_signalled = True\<rparr>,
              \<lparr>iteration_number = 2, cumulative_delay = 20, previous_delay = Some 10,
               condition_signalled = True\<rparr>,
              \<lparr>iteration_number = 3, cumulative_delay = 30, previous_delay = Some 10,
               condition_signalled = True\<rparr>], ())
   \<and> applyAndPreemptibleDelay (\<lambda>d w. w) (\<lambda>d c w. (False, w))
        \<lparr>policy_before = constantDelay 100, policy_after = constantDelay 10\<rparr>
        (\<lambda>w. (True, w))
        \<lparr>iteration_number = 2, cumulative_delay = 200,
         previous_delay = Some 100, condition_signalled = True\<rparr> ()
      = Inr (Some \<lparr>iteration_number = 1, cumulative_delay = 10, previous_delay = Some 10,
                   condition_signalled = False\<rparr>, ())
   \<and> (1 :: 32 word) \<noteq> 0"
  by (simp add: preemptible_simulate_def applyAndPreemptibleDelay_def applyAndDelay_def
      eval_nat_numeral apply_policy_def constantDelay_def fresh_status_def
      fresh_preemptible_status_def RetryStatus.truncate_def PreemptibleRetryStatus_of_def)

end
